theory Spec2Isabelle
  imports Main "HOL-Library.Word"
begin

section \<open>Data model of main.c\<close>

text \<open>
  All variables of the program are \<^verbatim>\<open>uint8_t\<close>; they are 8-bit words, on which
  \<open>+\<close> wraps modulo 256. Where C promotes the operands of an expression to a wider
  integer type before it computes (\<^verbatim>\<open>(tail + 1) % NELEMS(queue)\<close>,
  \<^verbatim>\<open>consume_every + consume_every_modifier\<close>, the comparison \<^verbatim>\<open>>=\<close>), the
  words are read with \<open>unat\<close> and the arithmetic is that of the natural numbers: the
  values are non-negative and far below the range of the promoted type, so nothing wraps
  there.
\<close>

type_synonym u8 = "8 word"

text \<open>\<^verbatim>\<open>struct _RGB { uint8_t r; uint8_t g; uint8_t b; }\<close>\<close>

record RGB =
  r :: u8
  g :: u8
  b :: u8

text \<open>
  What the program hands to \<^verbatim>\<open>USART_TransmitString\<close>. The two format strings of the
  interrupt routine are the two constructors, with the arguments of \<^verbatim>\<open>snprintf\<close>;
  the decimal rendering of the numbers is not modelled.
\<close>

datatype msg =
  Consumed RGB nat
| Queue_is_empty u8

text \<open>
  The globals of the program, the two \<^verbatim>\<open>static\<close> locals of the interrupt routine
  (\<open>cycle\<close>, \<open>consume_every\<close>), and the serial line as the list of the strings sent
  so far.
\<close>

record state =
  queue :: "RGB list"
  head :: u8
  tail :: u8
  enable_consumer :: u8
  consume_every_modifier :: u8
  cycle :: u8
  consume_every :: u8
  usart :: "msg list"

text \<open>\<^verbatim>\<open>NELEMS(queue)\<close> for \<^verbatim>\<open>volatile RGB queue[128]\<close>.\<close>

definition NELEMS_queue :: nat where
  "NELEMS_queue = 128"

text \<open>The state at reset: zero-initialised globals, \<^verbatim>\<open>consume_every = 1\<close>.\<close>

definition init_state :: state where
  "init_state =
     \<lparr>queue = replicate NELEMS_queue \<lparr>r = 0, g = 0, b = 0\<rparr>,
      head = 0, tail = 0, enable_consumer = 0, consume_every_modifier = 0,
      cycle = 0, consume_every = 1, usart = []\<rparr>"

section \<open>The ring buffer\<close>

text \<open>\<^verbatim>\<open>return (head == tail);\<close>\<close>

definition empty :: "state \<Rightarrow> u8" where
  "empty s = (if head s = tail s then 1 else 0)"

text \<open>\<^verbatim>\<open>return (head == (tail + 1) % NELEMS(queue));\<close>\<close>

definition full :: "state \<Rightarrow> u8" where
  "full s = (if unat (head s) = (unat (tail s) + 1) mod NELEMS_queue then 1 else 0)"

text \<open>
  \<^verbatim>\<open>queue[tail] = *rgb; tail = (tail + 1) % NELEMS(queue);\<close>
  An index outside the array is undefined behaviour in C; in the model the update is
  then lost. The cursors stay inside the array (\<open>cursors_ok\<close> below), and every theorem
  that reads or writes a slot is stated for such states.
\<close>

definition enqueue :: "RGB \<Rightarrow> state \<Rightarrow> state" where
  "enqueue rgb s =
     (let s1 = s\<lparr>queue := (queue s)[unat (tail s) := rgb]\<rparr>
      in s1\<lparr>tail := of_nat ((unat (tail s1) + 1) mod NELEMS_queue)\<rparr>)"

text \<open>\<^verbatim>\<open>*rgb = queue[head]; head = (head + 1) % NELEMS(queue);\<close>\<close>

definition dequeue :: "state \<Rightarrow> RGB \<times> state" where
  "dequeue s =
     (let rgb = queue s ! unat (head s)
      in (rgb, s\<lparr>head := of_nat ((unat (head s) + 1) mod NELEMS_queue)\<rparr>))"

text \<open>The array has its 128 slots and both cursors index into it.\<close>

definition cursors_ok :: "state \<Rightarrow> bool" where
  "cursors_ok s \<longleftrightarrow>
     length (queue s) = NELEMS_queue \<and>
     unat (head s) < NELEMS_queue \<and> unat (tail s) < NELEMS_queue"

text \<open>The records waiting in the buffer, oldest first: the slots from \<open>head\<close> up to \<open>tail\<close>.\<close>

definition stored :: "state \<Rightarrow> nat" where
  "stored s = (unat (tail s) + NELEMS_queue - unat (head s)) mod NELEMS_queue"

definition contents :: "state \<Rightarrow> RGB list" where
  "contents s =
     map (\<lambda>i. queue s ! ((unat (head s) + i) mod NELEMS_queue)) [0..<stored s]"

section \<open>Sequences of queue operations\<close>

datatype qop = Enqueue RGB | Dequeue

text \<open>The records passed to \<open>enqueue\<close> by a sequence of operations.\<close>

fun enqueued :: "qop list \<Rightarrow> RGB list" where
  "enqueued [] = []"
| "enqueued (Enqueue x # ops) = x # enqueued ops"
| "enqueued (Dequeue # ops) = enqueued ops"

text \<open>
  Running a sequence of operations: the final state and the records that the calls of
  \<open>dequeue\<close> returned, in the order of the calls.
\<close>

fun run_ops :: "qop list \<Rightarrow> state \<Rightarrow> RGB list \<times> state" where
  "run_ops [] s = ([], s)"
| "run_ops (Enqueue x # ops) s = run_ops ops (enqueue x s)"
| "run_ops (Dequeue # ops) s =
     (let (x, s1) = dequeue s; (xs, s2) = run_ops ops s1 in (x # xs, s2))"

text \<open>
  The discipline of the callers: \<open>enqueue\<close> only when \<open>full()\<close> returned 0, \<open>dequeue\<close>
  only when \<open>empty()\<close> returned 0.
\<close>

fun guarded :: "qop list \<Rightarrow> state \<Rightarrow> bool" where
  "guarded [] s = True"
| "guarded (Enqueue x # ops) s = (full s = 0 \<and> guarded ops (enqueue x s))"
| "guarded (Dequeue # ops) s = (empty s = 0 \<and> guarded ops (snd (dequeue s)))"

text \<open>Consecutive calls of \<open>enqueue\<close>.\<close>

fun enqueue_all :: "RGB list \<Rightarrow> state \<Rightarrow> state" where
  "enqueue_all [] s = s"
| "enqueue_all (x # xs) s = enqueue_all xs (enqueue x s)"

section \<open>The serial line\<close>

text \<open>\<^verbatim>\<open>USART_TransmitString\<close>: the string goes out on the line.\<close>

definition USART_TransmitString :: "msg \<Rightarrow> state \<Rightarrow> state" where
  "USART_TransmitString m s = s\<lparr>usart := usart s @ [m]\<rparr>"

section \<open>The timer interrupt\<close>

text \<open>
  \<^verbatim>\<open>ISR(TIMER0_OVF_vect)\<close>. The condition
  \<^verbatim>\<open>enable_consumer && ++cycle >= (consume_every + consume_every_modifier)\<close>
  short-circuits: \<open>cycle\<close> is incremented (as a \<^verbatim>\<open>uint8_t\<close>, wrapping) only when
  \<open>enable_consumer\<close> is set; the sum on the right is computed in \<^verbatim>\<open>int\<close> and does not
  wrap. \<^verbatim>\<open>consume_every++\<close> is again an 8-bit increment.
\<close>

definition ISR :: "state \<Rightarrow> state" where
  "ISR s =
     (if enable_consumer s = 0 then s
      else
        let s1 = s\<lparr>cycle := cycle s + 1\<rparr> in
        if unat (consume_every s1) + unat (consume_every_modifier s1) \<le> unat (cycle s1) then
          let s2 = s1\<lparr>cycle := 0\<rparr> in
          if empty s2 = 0 then
            let (rgb, s3) = dequeue s2
            in USART_TransmitString
                 (Consumed rgb (unat (consume_every s3) + unat (consume_every_modifier s3))) s3
          else
            let s3 = s2\<lparr>consume_every := consume_every s2 + 1\<rparr>;
                s4 = s3\<lparr>enable_consumer := 0\<rparr>
            in USART_TransmitString (Queue_is_empty (consume_every s4)) s4
        else s1)"

text \<open>The period in ticks, \<^verbatim>\<open>consume_every + consume_every_modifier\<close>, as C computes it.\<close>

definition period :: "state \<Rightarrow> nat" where
  "period s = unat (consume_every s) + unat (consume_every_modifier s)"

section \<open>Concrete states\<close>

text \<open>Records, operations and states of the program on which the theorems below are run.\<close>

definition red :: RGB where
  "red = \<lparr>r = 255, g = 0, b = 0\<rparr>"

definition teal :: RGB where
  "teal = \<lparr>r = 0, g = 128, b = 128\<rparr>"

text \<open>A sequence of queue operations that ends with the buffer drained.\<close>

definition demo_ops :: "qop list" where
  "demo_ops = [Enqueue red, Dequeue, Enqueue teal, Enqueue red, Dequeue, Dequeue]"

text \<open>One record waiting, the consumer enabled, a period of 2 + 1 ticks.\<close>

definition waiting_state :: state where
  "waiting_state =
     init_state\<lparr>tail := 1, enable_consumer := 1, consume_every := 2,
                 consume_every_modifier := 1\<rparr>"

text \<open>One record waiting, the consumer enabled, a period of 1 + 255 = 256 ticks.\<close>

definition slow_state :: state where
  "slow_state =
     init_state\<lparr>tail := 1, enable_consumer := 1, consume_every := 1,
                 consume_every_modifier := 255\<rparr>"

text \<open>One record waiting, the consumer enabled, a period of 200 + 100 = 300 ticks.\<close>

definition stalled_state :: state where
  "stalled_state =
     init_state\<lparr>tail := 1, enable_consumer := 1, consume_every := 200,
                 consume_every_modifier := 100\<rparr>"

text \<open>
  An empty buffer, the consumer enabled, \<open>consume_every = 255\<close> and 254 ticks counted:
  the next tick is the one on which a drain is due.
\<close>

definition underrun_state :: state where
  "underrun_state = init_state\<lparr>enable_consumer := 1, cycle := 254, consume_every := 255\<rparr>"

text \<open>The same with the cursors elsewhere in the array.\<close>

definition saturated_state :: state where
  "saturated_state =
     init_state\<lparr>head := 5, tail := 5, enable_consumer := 1, cycle := 254,
                 consume_every := 255\<rparr>"

section \<open>The producer\<close>

text \<open>
  The three nested \<^verbatim>\<open>do ... while\<close> loops of \<open>main\<close>, each closed by an 8-bit
  pre-increment that is compared with 0. The loop body spins while the queue is full
  and then calls \<^verbatim>\<open>enqueue(&rgb)\<close>; the loops are modelled with the list of the
  records passed to \<open>enqueue\<close>, in the order of the calls, as their output.
\<close>

function main_loop_b :: "RGB \<Rightarrow> RGB list \<Rightarrow> RGB \<times> RGB list" where
  "main_loop_b rgb out =
     (let out1 = out @ [rgb];
          rgb1 = rgb\<lparr>b := b rgb + 1\<rparr>
      in if b rgb1 \<noteq> 0 then main_loop_b rgb1 out1 else (rgb1, out1))"
  by pat_completeness auto
termination
proof (relation "measure (\<lambda>(rgb, out). 255 - unat (b rgb))")
  show "wf (measure (\<lambda>(rgb, out). 255 - unat (b rgb)))"
    by simp
next
  fix rgb :: RGB and out out1 :: "RGB list" and rgb1 :: RGB
  assume "rgb1 = rgb\<lparr>b := b rgb + 1\<rparr>" and nz: "b rgb1 \<noteq> 0"
  then have "unat (b rgb1) = Suc (unat (b rgb))"
    using unatSuc [of "b rgb"] by (simp add: add.commute)
  moreover have "unat (b rgb1) < 256"
    using unsigned_less [of "b rgb1", where 'a = nat] by simp
  ultimately show "((rgb1, out1), (rgb, out)) \<in> measure (\<lambda>(rgb, out). 255 - unat (b rgb))"
    by simp
qed

subsection \<open>Facts about 8-bit counters, for the termination of the outer loops\<close>

lemma u8_lt: "unat (x::u8) < 256"
  using unsigned_less [of x, where 'a = nat] by simp

lemma u8_suc: "unat (x + 1 :: u8) = (if unat x = 255 then 0 else Suc (unat x))"
proof (cases "unat x = 255")
  case True
  then have "x = 255" by (simp add: word_unat_eq_iff)
  then show ?thesis by simp
next
  case False
  then have "Suc (unat x) < 256" using u8_lt [of x] by simp
  then show ?thesis using False by (simp add: unat_word_ariths)
qed

lemma u8_wrap_measure: "(x::u8) + 1 \<noteq> 0 \<Longrightarrow> 255 - unat (x + 1) < 255 - unat x"
  using unatSuc [of x] u8_lt [of "x + 1"] by (simp add: add.commute)

text \<open>
  The defining equation of a loop unfolds without end; it is applied by hand where needed.
\<close>

declare main_loop_b.simps [simp del]

lemma main_loop_b_eq:
  "main_loop_b rgb out =
     (rgb\<lparr>b := 0\<rparr>, out @ map (\<lambda>k. rgb\<lparr>b := of_nat k\<rparr>) [unat (b rgb)..<256])"
proof (induction rgb out rule: main_loop_b.induct)
  case (1 rgb out)
  have lt: "unat (b rgb) < 256" by (rule u8_lt)
  show ?case
  proof (cases "b rgb + 1 = 0")
    case True
    then have step: "main_loop_b rgb out = (rgb\<lparr>b := 0\<rparr>, out @ [rgb])"
      by (subst main_loop_b.simps) (simp add: Let_def)
    from True have "unat (b rgb + 1) = 0" by simp
    then have last: "unat (b rgb) = 255"
      by (simp add: u8_suc split: if_splits)
    then have "b rgb = 255" by (simp add: word_unat_eq_iff)
    then have "rgb = rgb\<lparr>b := 255\<rparr>" by (cases rgb) simp
    then have "[rgb] = map (\<lambda>k. rgb\<lparr>b := of_nat k\<rparr>) [255..<256]"
      by (simp add: upt_rec)
    then show ?thesis unfolding step last by simp
  next
    case False
    then have suc: "unat (b rgb + 1) = Suc (unat (b rgb))"
      using unatSuc [of "b rgb"] by (simp add: add.commute)
    have step: "main_loop_b rgb out = main_loop_b (rgb\<lparr>b := b rgb + 1\<rparr>) (out @ [rgb])"
      using False by (subst main_loop_b.simps) (simp add: Let_def)
    have ih: "main_loop_b (rgb\<lparr>b := b rgb + 1\<rparr>) (out @ [rgb]) =
        (rgb\<lparr>b := 0\<rparr>, (out @ [rgb]) @
           map (\<lambda>k. rgb\<lparr>b := of_nat k\<rparr>) [Suc (unat (b rgb))..<256])"
      using "1.IH" [OF refl refl] False by (simp add: suc)
    have "rgb = rgb\<lparr>b := of_nat (unat (b rgb))\<rparr>" by simp
    then have "map (\<lambda>k. rgb\<lparr>b := of_nat k\<rparr>) [unat (b rgb)..<256] =
        rgb # map (\<lambda>k. rgb\<lparr>b := of_nat k\<rparr>) [Suc (unat (b rgb))..<256]"
      using lt by (simp add: upt_conv_Cons)
    then show ?thesis unfolding step ih by simp
  qed
qed


lemma main_loop_b_g: "g (fst (main_loop_b rgb out)) = g rgb"
  by (simp add: main_loop_b_eq)

lemma main_loop_b_r: "r (fst (main_loop_b rgb out)) = r rgb"
  by (simp add: main_loop_b_eq)

function main_loop_g :: "RGB \<Rightarrow> RGB list \<Rightarrow> RGB \<times> RGB list" where
  "main_loop_g rgb out =
     (let (rgb1, out1) = main_loop_b rgb out;
          rgb2 = rgb1\<lparr>g := g rgb1 + 1\<rparr>
      in if g rgb2 \<noteq> 0 then main_loop_g rgb2 out1 else (rgb2, out1))"
  by pat_completeness auto
termination
proof (relation "measure (\<lambda>(rgb, out). 255 - unat (g rgb))")
  show "wf (measure (\<lambda>(rgb, out). 255 - unat (g rgb)))"
    by simp
next
  fix rgb rgb1 rgb2 :: RGB and out out1 :: "RGB list" and x :: "RGB \<times> RGB list"
  assume "x = main_loop_b rgb out" and "(rgb1, out1) = x"
    and "rgb2 = rgb1\<lparr>g := g rgb1 + 1\<rparr>" and "g rgb2 \<noteq> 0"
  then have "g rgb1 = g rgb" and "g rgb2 = g rgb + 1" and "g rgb + 1 \<noteq> 0"
    using main_loop_b_g [of rgb out] by (simp_all add: fst_def split: prod.splits)
  then show "((rgb2, out1), (rgb, out)) \<in> measure (\<lambda>(rgb, out). 255 - unat (g rgb))"
    using u8_wrap_measure [of "g rgb"] by simp
qed

declare main_loop_g.simps [simp del]

lemma main_loop_g_r: "r (fst (main_loop_g rgb out)) = r rgb"
proof (induction rgb out rule: main_loop_g.induct)
  case (1 rgb out)
  obtain rgb1 out1 where lb: "main_loop_b rgb out = (rgb1, out1)" by (cases "main_loop_b rgb out")
  then have r1: "r rgb1 = r rgb" using main_loop_b_r [of rgb out] by simp
  show ?case
  proof (cases "g rgb1 + 1 = 0")
    case True
    then show ?thesis by (subst main_loop_g.simps) (simp add: lb Let_def r1)
  next
    case False
    then show ?thesis
      using "1.IH" [OF lb [symmetric] refl refl]
      by (subst main_loop_g.simps) (simp add: lb Let_def r1)
  qed
qed

function main_loop_r :: "RGB \<Rightarrow> RGB list \<Rightarrow> RGB \<times> RGB list" where
  "main_loop_r rgb out =
     (let (rgb1, out1) = main_loop_g rgb out;
          rgb2 = rgb1\<lparr>r := r rgb1 + 1\<rparr>
      in if r rgb2 \<noteq> 0 then main_loop_r rgb2 out1 else (rgb2, out1))"
  by pat_completeness auto
termination
proof (relation "measure (\<lambda>(rgb, out). 255 - unat (r rgb))")
  show "wf (measure (\<lambda>(rgb, out). 255 - unat (r rgb)))"
    by simp
next
  fix rgb rgb1 rgb2 :: RGB and out out1 :: "RGB list" and x :: "RGB \<times> RGB list"
  assume "x = main_loop_g rgb out" and "(rgb1, out1) = x"
    and "rgb2 = rgb1\<lparr>r := r rgb1 + 1\<rparr>" and "r rgb2 \<noteq> 0"
  then have "r rgb1 = r rgb" and "r rgb2 = r rgb + 1" and "r rgb + 1 \<noteq> 0"
    using main_loop_g_r [of rgb out] by (simp_all add: fst_def split: prod.splits)
  then show "((rgb2, out1), (rgb, out)) \<in> measure (\<lambda>(rgb, out). 255 - unat (r rgb))"
    using u8_wrap_measure [of "r rgb"] by simp
qed

declare main_loop_r.simps [simp del]

text \<open>One pass of the body of \<^verbatim>\<open>for (;;)\<close>: \<^verbatim>\<open>RGB rgb = { 0 };\<close> and the three loops.\<close>

definition main_pass :: "RGB \<times> RGB list" where
  "main_pass = main_loop_r \<lparr>r = 0, g = 0, b = 0\<rparr> []"

subsection \<open>Odometer order\<close>

text \<open>
  The reading of a three-digit odometer in base 256 after \<open>n\<close> steps from 000, with \<open>r\<close>
  as the most significant digit and \<open>b\<close> as the least significant one (\<open>of_nat\<close> into
  an 8-bit word reduces modulo 256), and the position of a record in that order.
\<close>

definition odometer :: "nat \<Rightarrow> RGB" where
  "odometer n = \<lparr>r = of_nat (n div 65536), g = of_nat (n div 256), b = of_nat n\<rparr>"

definition odometer_index :: "RGB \<Rightarrow> nat" where
  "odometer_index x = (unat (r x) * 256 + unat (g x)) * 256 + unat (b x)"

text \<open>One step of the odometer: increment the lowest digit, carrying where a digit wraps.\<close>

definition odometer_carry :: "RGB \<Rightarrow> RGB" where
  "odometer_carry x =
     (if b x \<noteq> 255 then x\<lparr>b := b x + 1\<rparr>
      else if g x \<noteq> 255 then x\<lparr>g := g x + 1, b := 0\<rparr>
      else x\<lparr>r := r x + 1, g := 0, b := 0\<rparr>)"

section \<open>Properties of the ring buffer\<close>

lemma u8_unat_of_nat: "unat (of_nat n :: u8) = n mod 256"
  by (simp add: unat_of_nat)

lemma u8_of_nat_mod: "unat (of_nat (n mod 128) :: u8) = n mod 128"
proof -
  have "n mod 128 < 256" using mod_less_divisor [of 128 n] by linarith
  then show ?thesis by (simp add: u8_unat_of_nat)
qed

lemma head_enqueue: "head (enqueue x s) = head s"
  by (simp add: enqueue_def)

lemma tail_enqueue: "unat (tail (enqueue x s)) = (unat (tail s) + 1) mod 128"
  by (simp add: enqueue_def NELEMS_queue_def u8_of_nat_mod)

lemma queue_enqueue: "queue (enqueue x s) = (queue s)[unat (tail s) := x]"
  by (simp add: enqueue_def)

lemma head_dequeue: "unat (head (snd (dequeue s))) = (unat (head s) + 1) mod 128"
  by (simp add: dequeue_def NELEMS_queue_def u8_of_nat_mod)

lemma tail_dequeue: "tail (snd (dequeue s)) = tail s"
  by (simp add: dequeue_def)

lemma queue_dequeue: "queue (snd (dequeue s)) = queue s"
  by (simp add: dequeue_def)

lemma fst_dequeue: "fst (dequeue s) = queue s ! unat (head s)"
  by (simp add: dequeue_def)

lemma cursors_ok_enqueue: "cursors_ok s \<Longrightarrow> cursors_ok (enqueue x s)"
  by (simp add: cursors_ok_def head_enqueue tail_enqueue queue_enqueue NELEMS_queue_def)

lemma cursors_ok_dequeue: "cursors_ok s \<Longrightarrow> cursors_ok (snd (dequeue s))"
  by (simp add: cursors_ok_def head_dequeue tail_dequeue queue_dequeue NELEMS_queue_def)



lemma suc_mod128: "(n::nat) < 128 \<Longrightarrow> Suc n mod 128 = (if n = 127 then 0 else Suc n)"
  by (cases "n = 127") simp_all

lemma stored_alt:
  assumes "cursors_ok s"
  shows "stored s = (if unat (head s) \<le> unat (tail s) then unat (tail s) - unat (head s)
                     else unat (tail s) + 128 - unat (head s))"
proof -
  from assms have h: "unat (head s) < 128" and t: "unat (tail s) < 128"
    by (simp_all add: cursors_ok_def NELEMS_queue_def)
  show ?thesis
  proof (cases "unat (head s) \<le> unat (tail s)")
    case True
    then have "unat (tail s) + 128 - unat (head s) = (unat (tail s) - unat (head s)) + 128"
      by simp
    moreover have "unat (tail s) - unat (head s) < 128" using t by simp
    ultimately have "(unat (tail s) + 128 - unat (head s)) mod 128 = unat (tail s) - unat (head s)"
      by (metis mod_add_self2 mod_less)
    then show ?thesis using True by (simp add: stored_def NELEMS_queue_def)
  next
    case False
    then have "unat (tail s) + 128 - unat (head s) < 128" by simp
    then show ?thesis using False by (simp add: stored_def NELEMS_queue_def)
  qed
qed

lemma full_iff: "cursors_ok s \<Longrightarrow> full s = 0 \<longleftrightarrow> stored s \<noteq> 127"
  by (auto simp: stored_alt full_def cursors_ok_def NELEMS_queue_def suc_mod128 split: if_splits)

lemma empty_iff: "cursors_ok s \<Longrightarrow> empty s = 0 \<longleftrightarrow> stored s \<noteq> 0"
  by (auto simp: stored_alt empty_def cursors_ok_def NELEMS_queue_def word_unat_eq_iff)


lemma stored_enqueue:
  assumes "cursors_ok s" "full s = 0"
  shows "stored (enqueue x s) = Suc (stored s)"
proof -
  define h t where "h = unat (head s)" and "t = unat (tail s)"
  from assms have h: "h < 128" and t: "t < 128"
    by (simp_all add: cursors_ok_def NELEMS_queue_def h_def t_def)
  have ok: "cursors_ok (enqueue x s)" using assms(1) by (rule cursors_ok_enqueue)
  have t': "unat (tail (enqueue x s)) = (if t = 127 then 0 else Suc t)"
    using t by (simp add: tail_enqueue suc_mod128 t_def)
  have old: "stored s = (if h \<le> t then t - h else t + 128 - h)"
    by (simp add: stored_alt [OF assms(1)] h_def t_def)
  have new: "stored (enqueue x s) =
      (if h \<le> (if t = 127 then 0 else Suc t) then (if t = 127 then 0 else Suc t) - h
       else (if t = 127 then 0 else Suc t) + 128 - h)"
    by (simp only: stored_alt [OF ok] head_enqueue t' h_def [symmetric])
  have nf: "stored s \<noteq> 127" using assms full_iff by simp
  show ?thesis
    using nf h t unfolding old new by (auto split: if_splits)
qed

lemma stored_dequeue:
  assumes "cursors_ok s" "empty s = 0"
  shows "stored s = Suc (stored (snd (dequeue s)))"
proof -
  define h t where "h = unat (head s)" and "t = unat (tail s)"
  from assms have h: "h < 128" and t: "t < 128"
    by (simp_all add: cursors_ok_def NELEMS_queue_def h_def t_def)
  have ok: "cursors_ok (snd (dequeue s))" using assms(1) by (rule cursors_ok_dequeue)
  have h': "unat (head (snd (dequeue s))) = (if h = 127 then 0 else Suc h)"
    using h by (simp add: head_dequeue suc_mod128 h_def)
  have old: "stored s = (if h \<le> t then t - h else t + 128 - h)"
    by (simp add: stored_alt [OF assms(1)] h_def t_def)
  have new: "stored (snd (dequeue s)) =
      (if (if h = 127 then 0 else Suc h) \<le> t then t - (if h = 127 then 0 else Suc h)
       else t + 128 - (if h = 127 then 0 else Suc h))"
    by (simp only: stored_alt [OF ok] tail_dequeue h' t_def [symmetric])
  have ne: "stored s \<noteq> 0" using assms empty_iff by simp
  show ?thesis
    using ne h t unfolding old new by (auto split: if_splits)
qed

lemma slot_mod:
  assumes "cursors_ok s" "i < 128"
  shows "(unat (head s) + i) mod 128 =
     (if unat (head s) + i < 128 then unat (head s) + i else unat (head s) + i - 128)"
proof (cases "unat (head s) + i < 128")
  case True then show ?thesis by simp
next
  case False
  from assms have h: "unat (head s) < 128" by (simp add: cursors_ok_def NELEMS_queue_def)
  have "unat (head s) + i = (unat (head s) + i - 128) + 128" using False by simp
  moreover have "unat (head s) + i - 128 < 128" using h assms(2) by simp
  ultimately have "(unat (head s) + i) mod 128 = unat (head s) + i - 128"
    by (metis mod_add_self2 mod_less)
  then show ?thesis using False by simp
qed


lemma stored_lt: "stored s < 128"
  by (simp add: stored_def NELEMS_queue_def)

lemma slot_inj:
  assumes "cursors_ok s" "i < 128" "j < 128"
    and "(unat (head s) + i) mod 128 = (unat (head s) + j) mod 128"
  shows "i = j"
  using assms(2-4) unfolding slot_mod [OF assms(1,2)] slot_mod [OF assms(1,3)]
  by (auto split: if_splits)

lemma slot_tail:
  assumes "cursors_ok s"
  shows "(unat (head s) + stored s) mod 128 = unat (tail s)"
proof -
  from assms have h: "unat (head s) < 128" and t: "unat (tail s) < 128"
    by (simp_all add: cursors_ok_def NELEMS_queue_def)
  show ?thesis
    using h t unfolding slot_mod [OF assms stored_lt] stored_alt [OF assms]
    by (auto split: if_splits)
qed

lemma contents_enqueue:
  assumes "cursors_ok s" "full s = 0"
  shows "contents (enqueue x s) = contents s @ [x]"
proof -
  have len: "unat (tail s) < length (queue s)"
    using assms(1) by (simp add: cursors_ok_def)
  have last: "(queue s)[unat (tail s) := x] ! ((unat (head s) + stored s) mod 128) = x"
    using len by (simp add: slot_tail [OF assms(1)])
  have other: "(queue s)[unat (tail s) := x] ! ((unat (head s) + i) mod 128)
      = queue s ! ((unat (head s) + i) mod 128)" if "i < stored s" for i
  proof -
    have "i < 128" "stored s < 128" "i \<noteq> stored s"
      using that stored_lt [of s] by simp_all
    then have "(unat (head s) + i) mod 128 \<noteq> (unat (head s) + stored s) mod 128"
      using slot_inj [OF assms(1), of i "stored s"] by blast
    then show ?thesis by (simp add: slot_tail [OF assms(1)])
  qed
  show ?thesis
    by (simp add: contents_def stored_enqueue [OF assms] head_enqueue queue_enqueue
        NELEMS_queue_def last other)
qed

lemma contents_dequeue:
  assumes "cursors_ok s" "empty s = 0"
  shows "contents s = fst (dequeue s) # contents (snd (dequeue s))"
proof -
  from assms have h: "unat (head s) < 128"
    by (simp add: cursors_ok_def NELEMS_queue_def)
  have shift: "(Suc (unat (head s)) mod 128 + i) mod 128 = Suc (unat (head s) + i) mod 128" for i
    by (simp add: mod_add_left_eq)
  show ?thesis
    unfolding contents_def stored_dequeue [OF assms] map_upt_Suc
    using h by (simp add: fst_dequeue head_dequeue queue_dequeue NELEMS_queue_def shift
        del: upt_Suc)
qed

lemma contents_empty: "empty s = 1 \<Longrightarrow> contents s = []"
  by (simp add: contents_def stored_def empty_def NELEMS_queue_def split: if_splits)

lemma run_ops_fifo:
  "cursors_ok s \<Longrightarrow> guarded ops s \<Longrightarrow>
     contents s @ enqueued ops = fst (run_ops ops s) @ contents (snd (run_ops ops s))
     \<and> cursors_ok (snd (run_ops ops s))"
proof (induction ops s rule: run_ops.induct)
  case (1 s)
  then show ?case by simp
next
  case (2 x ops s)
  then show ?case
    by (simp add: contents_enqueue cursors_ok_enqueue)
next
  case (3 ops s)
  have ok: "cursors_ok (snd (dequeue s))" using "3.prems"(1) by (rule cursors_ok_dequeue)
  have g: "guarded ops (snd (dequeue s))" and ne: "empty s = 0" using "3.prems"(2) by simp_all
  have ih: "contents (snd (dequeue s)) @ enqueued ops =
      fst (run_ops ops (snd (dequeue s))) @ contents (snd (run_ops ops (snd (dequeue s))))
      \<and> cursors_ok (snd (run_ops ops (snd (dequeue s))))"
    using "3.IH" [OF refl prod.collapse ok g] .
  show ?case
    using ih contents_dequeue [OF "3.prems"(1) ne]
    by (simp add: split_beta)
qed


lemma full_cases: "full s = 0 \<or> full s = 1"
  by (simp add: full_def)

lemma stored_enqueue_all:
  "cursors_ok s \<Longrightarrow> stored s + length xs \<le> 127 \<Longrightarrow>
     stored (enqueue_all xs s) = stored s + length xs \<and> cursors_ok (enqueue_all xs s)"
proof (induction xs arbitrary: s)
  case Nil
  then show ?case by simp
next
  case (Cons x xs)
  have nf: "full s = 0" using Cons.prems by (simp add: full_iff)
  have ok: "cursors_ok (enqueue x s)" using Cons.prems(1) by (rule cursors_ok_enqueue)
  have st: "stored (enqueue x s) = Suc (stored s)"
    using Cons.prems(1) nf by (rule stored_enqueue)
  show ?case
    using Cons.IH [OF ok] Cons.prems(2) by (simp add: st)
qed

text \<open>
  Claim C1. Every sequence of \<open>enqueue\<close> and \<open>dequeue\<close> calls that starts on an empty
  buffer and respects the preconditions (\<open>enqueue\<close> only after \<open>full()\<close> returned 0,
  \<open>dequeue\<close> only after \<open>empty()\<close> returned 0) is first-in first-out: the records
  passed to \<open>enqueue\<close> are, in order, the records returned by \<open>dequeue\<close> followed by the
  records still waiting in the buffer. Nothing is lost, duplicated or reordered, and once the
  buffer has been drained the sequence dequeued equals the sequence enqueued.
\<close>

theorem fifo_order:
  assumes "cursors_ok s" "empty s = 1" "guarded ops s"
  shows "enqueued ops = fst (run_ops ops s) @ contents (snd (run_ops ops s)) \<and>
         (empty (snd (run_ops ops s)) = 1 \<longrightarrow> fst (run_ops ops s) = enqueued ops)"
  using run_ops_fifo [OF assms(1,3)] contents_empty [OF assms(2)]
    contents_empty [of "snd (run_ops ops s)"] by auto

text \<open>The theorem on a run from the state at reset that ends with the buffer drained.\<close>

theorem fifo_order_witness:
  "cursors_ok init_state \<and> empty init_state = 1 \<and> guarded demo_ops init_state \<and>
   empty (snd (run_ops demo_ops init_state)) = 1 \<and>
   fst (run_ops demo_ops init_state) = [red, teal, red]"
proof -
  have ok: "cursors_ok init_state" by code_simp
  have em: "empty init_state = 1" by code_simp
  have gd: "guarded demo_ops init_state" by code_simp
  have dr: "empty (snd (run_ops demo_ops init_state)) = 1" by code_simp
  have en: "enqueued demo_ops = [red, teal, red]" by (simp add: demo_ops_def)
  have "fst (run_ops demo_ops init_state) = enqueued demo_ops"
    using fifo_order [OF ok em gd] dr by blast
  then have "fst (run_ops demo_ops init_state) = [red, teal, red]"
    using en by (rule trans)
  then show ?thesis
    using ok em gd dr by blast
qed

text \<open>
  Claim C4. From an empty buffer (\<open>head = tail\<close>, inside the array of 128 slots),
  \<open>full()\<close> returns 0 before each of 127 consecutive calls of \<open>enqueue\<close>, and 1 after
  the 127th.
\<close>

theorem capacity_127:
  assumes "cursors_ok s" "empty s = 1" "length xs = 127"
  shows "(\<forall>k<127. full (enqueue_all (take k xs) s) = 0) \<and> full (enqueue_all xs s) = 1"
proof -
  have z: "stored s = 0"
    using assms(2) by (simp add: stored_def empty_def NELEMS_queue_def split: if_splits)
  have "full (enqueue_all (take k xs) s) = 0" if "k < 127" for k
  proof -
    have "stored (enqueue_all (take k xs) s) = k \<and> cursors_ok (enqueue_all (take k xs) s)"
      using stored_enqueue_all [OF assms(1), of "take k xs"] that assms(3) by (simp add: z)
    then show ?thesis using that by (simp add: full_iff)
  qed
  moreover have "full (enqueue_all xs s) = 1"
  proof -
    have "stored (enqueue_all xs s) = 127 \<and> cursors_ok (enqueue_all xs s)"
      using stored_enqueue_all [OF assms(1), of xs] assms(3) by (simp add: z)
    then have "full (enqueue_all xs s) \<noteq> 0" by (simp add: full_iff)
    then show ?thesis using full_cases [of "enqueue_all xs s"] by simp
  qed
  ultimately show ?thesis by simp
qed

text \<open>The theorem from the state at reset, with 127 copies of one record.\<close>

theorem capacity_127_witness:
  "cursors_ok init_state \<and> empty init_state = 1 \<and> length (replicate 127 red) = 127 \<and>
   full (enqueue_all (take 126 (replicate 127 red)) init_state) = 0 \<and>
   full (enqueue_all (replicate 127 red) init_state) = 1"
proof -
  have ok: "cursors_ok init_state" by code_simp
  have em: "empty init_state = 1" by code_simp
  have len: "length (replicate 127 red) = 127" by simp
  have "(126::nat) < 127" by simp
  then show ?thesis
    using capacity_127 [OF ok em len] ok em len by blast
qed

text \<open>
  Claim C6. \<open>full()\<close> and \<open>empty()\<close> never both return 1, whatever the cursors are
  (in particular for cursors inside the array).
\<close>

theorem not_full_and_empty: "\<not> (full s = 1 \<and> empty s = 1)"
proof
  assume a: "full s = 1 \<and> empty s = 1"
  then have eq: "head s = tail s" by (simp add: empty_def split: if_splits)
  from a have "unat (head s) = (unat (tail s) + 1) mod 128"
    by (simp add: full_def NELEMS_queue_def split: if_splits)
  then have m: "unat (tail s) = Suc (unat (tail s)) mod 128" using eq by simp
  then have "unat (tail s) < 128" using mod_less_divisor [of 128 "Suc (unat (tail s))"] by simp
  then show False using m by (cases "unat (tail s) = 127") simp_all
qed

section \<open>Properties of the timer interrupt\<close>

lemma ISR_wait:
  "enable_consumer s \<noteq> 0 \<Longrightarrow> unat (cycle s + 1) < period s \<Longrightarrow>
     ISR s = s\<lparr>cycle := cycle s + 1\<rparr>"
  by (simp add: ISR_def period_def Let_def)

lemma ISR_drain:
  "enable_consumer s \<noteq> 0 \<Longrightarrow> period s \<le> unat (cycle s + 1) \<Longrightarrow> empty s = 0 \<Longrightarrow>
     ISR s = (snd (dequeue s))\<lparr>cycle := 0, usart := usart s @ [Consumed (fst (dequeue s)) (period s)]\<rparr>"
  by (simp add: ISR_def period_def Let_def empty_def dequeue_def USART_TransmitString_def)

lemma ISR_underrun:
  "enable_consumer s \<noteq> 0 \<Longrightarrow> period s \<le> unat (cycle s + 1) \<Longrightarrow> empty s \<noteq> 0 \<Longrightarrow>
     ISR s = s\<lparr>cycle := 0, consume_every := consume_every s + 1, enable_consumer := 0,
               usart := usart s @ [Queue_is_empty (consume_every s + 1)]\<rparr>"
  by (simp add: ISR_def period_def Let_def empty_def USART_TransmitString_def)

lemma ISR_funpow_wait:
  "enable_consumer s \<noteq> 0 \<Longrightarrow>
   (\<And>j. 0 < j \<Longrightarrow> j \<le> n \<Longrightarrow> unat (cycle s + of_nat j) < period s) \<Longrightarrow>
     (ISR ^^ n) s = s\<lparr>cycle := cycle s + of_nat n\<rparr>"
proof (induction n)
  case 0
  then show ?case by simp
next
  case (Suc n)
  have prev: "(ISR ^^ n) s = s\<lparr>cycle := cycle s + of_nat n\<rparr>"
    using Suc.IH Suc.prems by simp
  let ?s = "s\<lparr>cycle := cycle s + of_nat n\<rparr>"
  have en: "enable_consumer ?s \<noteq> 0" using Suc.prems(1) by simp
  have "unat (cycle s + of_nat (Suc n)) < period s"
    using Suc.prems(2) [of "Suc n"] by simp
  then have lt: "unat (cycle ?s + 1) < period ?s"
    by (simp add: period_def ac_simps)
  show ?case
    using ISR_wait [OF en lt] by (simp add: prev ac_simps)
qed

lemma ISR_funpow_idle: "enable_consumer s = 0 \<Longrightarrow> (ISR ^^ n) s = s"
  by (induction n) (simp_all add: ISR_def)

text \<open>
  Claim C7. With \<open>enable_consumer = 0\<close> a timer tick changes nothing: \<open>cycle\<close>,
  \<open>consume_every\<close>, the cursors and the array stay as they are, and nothing is sent on
  the serial line.
\<close>

theorem ISR_disabled_frame: "enable_consumer s = 0 \<Longrightarrow> ISR s = s"
  by (simp add: ISR_def)

text \<open>The theorem on the state at reset, where the consumer is disabled.\<close>

theorem ISR_disabled_frame_witness:
  "enable_consumer init_state = 0 \<and> ISR init_state = init_state"
proof -
  have off: "enable_consumer init_state = 0" by (simp add: init_state_def)
  show ?thesis using ISR_disabled_frame [OF off] off by simp
qed

text \<open>
  Claim C10. When \<open>consume_every + consume_every_modifier\<close>, computed without
  wrap-around, exceeds 255, the 8-bit \<open>cycle\<close> never reaches it: any number of ticks only
  advances \<open>cycle\<close> modulo 256 (and only while the consumer is enabled). The cursors, the
  array, \<open>consume_every\<close> and the serial line are unchanged, so no dequeue occurs.
\<close>

theorem period_over_255_never_drains: "255 < period s \<Longrightarrow>
  (ISR ^^ n) s = (if enable_consumer s = 0 then s else s\<lparr>cycle := cycle s + of_nat n\<rparr>)"
proof (cases "enable_consumer s = 0")
  case True
  then show ?thesis by (simp add: ISR_funpow_idle)
next
  case False
  assume big: "255 < period s"
  have "unat (cycle s + of_nat j) < period s" for j
    using u8_lt [of "cycle s + of_nat j"] big by simp
  then show ?thesis using False ISR_funpow_wait [OF False, of n] by simp
qed

text \<open>The theorem with a period of 300: after 300 ticks \<open>cycle\<close> is 300 mod 256 = 44.\<close>

theorem period_over_255_never_drains_witness:
  "255 < period stalled_state \<and> (ISR ^^ 300) stalled_state = stalled_state\<lparr>cycle := 44\<rparr>"
proof -
  have big: "255 < period stalled_state" by code_simp
  have en: "enable_consumer stalled_state \<noteq> 0" by code_simp
  have c: "cycle stalled_state + of_nat 300 = 44" by code_simp
  show ?thesis
    using period_over_255_never_drains [OF big, of 300] big en c by simp
qed

text \<open>
  Waiting out the period, where the 8-bit counter can reach it. Ticks are numbered from 1.
  With the consumer enabled, a non-empty buffer, \<open>cycle = 0\<close> and a period
  \<open>consume_every + consume_every_modifier\<close> between 1 and 255: after each number \<open>k\<close>
  of ticks below the period only \<open>cycle\<close> has changed (to \<open>k\<close>), so no dequeue has
  occurred; the tick whose number is the period performs exactly one \<open>dequeue\<close>, sends the
  record with the period on the serial line and resets \<open>cycle\<close> to 0.
\<close>

lemma drain_at_period:
  assumes en: "enable_consumer s \<noteq> 0" and ne: "empty s = 0" and c0: "cycle s = 0"
    and lo: "1 \<le> period s" and hi: "period s \<le> 255"
  shows "(\<forall>k<period s. (ISR ^^ k) s = s\<lparr>cycle := of_nat k\<rparr>) \<and>
         (ISR ^^ period s) s =
           (snd (dequeue s))\<lparr>cycle := 0,
              usart := usart s @ [Consumed (fst (dequeue s)) (period s)]\<rparr>"
proof -
  have small: "unat (of_nat j :: u8) = j" if "j \<le> 255" for j
    using that by (simp add: unat_of_nat)
  have waits: "(ISR ^^ k) s = s\<lparr>cycle := of_nat k\<rparr>" if "k < period s" for k
  proof -
    have "unat (cycle s + of_nat j) < period s" if "j \<le> k" for j
      using that \<open>k < period s\<close> hi small [of j] by (simp add: c0)
    then show ?thesis using ISR_funpow_wait [OF en, of k] by (simp add: c0)
  qed
  obtain k where k: "period s = Suc k" using lo by (cases "period s") simp_all
  let ?s = "s\<lparr>cycle := of_nat k\<rparr>"
  have prev: "(ISR ^^ k) s = ?s" using waits [of k] k by simp
  have en': "enable_consumer ?s \<noteq> 0" using en by simp
  have ne': "empty ?s = 0" using ne by (simp add: empty_def)
  have "unat (of_nat k + 1 :: u8) = Suc k"
    using small [of "Suc k"] hi k by (simp add: ac_simps)
  then have due: "period ?s \<le> unat (cycle ?s + 1)"
    using k by (simp add: period_def)
  have "(ISR ^^ period s) s = ISR ?s" by (simp add: k prev)
  also have "\<dots> = (snd (dequeue ?s))\<lparr>cycle := 0,
              usart := usart ?s @ [Consumed (fst (dequeue ?s)) (period ?s)]\<rparr>"
    by (rule ISR_drain [OF en' due ne'])
  also have "\<dots> = (snd (dequeue s))\<lparr>cycle := 0,
              usart := usart s @ [Consumed (fst (dequeue s)) (period s)]\<rparr>"
    by (simp add: dequeue_def period_def)
  finally show ?thesis using waits by simp
qed

text \<open>With a period of 3: two ticks count, the third one dequeues.\<close>

lemma drain_at_period_example:
  "enable_consumer waiting_state \<noteq> 0 \<and> empty waiting_state = 0 \<and> cycle waiting_state = 0 \<and>
   1 \<le> period waiting_state \<and> period waiting_state \<le> 255 \<and>
   (ISR ^^ 2) waiting_state = waiting_state\<lparr>cycle := 2\<rparr> \<and>
   (ISR ^^ 3) waiting_state =
     waiting_state\<lparr>head := 1, usart := [Consumed \<lparr>r = 0, g = 0, b = 0\<rparr> 3]\<rparr>"
proof -
  have en: "enable_consumer waiting_state \<noteq> 0" by code_simp
  have ne: "empty waiting_state = 0" by code_simp
  have c0: "cycle waiting_state = 0" by code_simp
  have p: "period waiting_state = 3" by code_simp
  have lo: "1 \<le> period waiting_state" and hi: "period waiting_state \<le> 255"
    by (simp_all add: p)
  have dq: "dequeue waiting_state = (\<lparr>r = 0, g = 0, b = 0\<rparr>, waiting_state\<lparr>head := 1\<rparr>)"
    by (simp add: dequeue_def waiting_state_def init_state_def NELEMS_queue_def)
  have u: "usart waiting_state = []" by (simp add: waiting_state_def init_state_def)
  have "(2::nat) < 3" by simp
  then show ?thesis
    using drain_at_period [OF en ne c0 lo hi] en ne c0 lo hi
    unfolding p dq by (simp add: u c0)
qed

text \<open>
  Claim C2 at a period of 256. The consumer is enabled, a record is waiting, \<open>cycle = 0\<close>,
  \<open>consume_every = 1\<close> and \<open>consume_every_modifier = 255\<close>. The claim has exactly one
  dequeue on the tick numbered 256. In the code the 8-bit \<open>cycle\<close> counts 1, ..., 255 and
  wraps to 0 on that tick instead of reaching 256: after the 256 ticks the state is the one
  before the first, so no dequeue has occurred, on that tick or before it, and every later
  run of 256 ticks repeats this. (Lemma \<open>drain_at_period\<close> shows that the claim holds for
  the periods from 1 to 255.)
\<close>

theorem period_256_never_drains:
  "enable_consumer slow_state \<noteq> 0 \<and> empty slow_state = 0 \<and> cycle slow_state = 0 \<and>
   period slow_state = 256 \<and> (ISR ^^ period slow_state) slow_state = slow_state"
proof -
  have en: "enable_consumer slow_state \<noteq> 0" by code_simp
  have ne: "empty slow_state = 0" by code_simp
  have c0: "cycle slow_state = 0" by code_simp
  have p: "period slow_state = 256" by code_simp
  have "unat (cycle slow_state + of_nat j) < period slow_state" for j
    using u8_lt [of "cycle slow_state + of_nat j"] by (simp add: p)
  then have "(ISR ^^ 256) slow_state = slow_state\<lparr>cycle := cycle slow_state + of_nat 256\<rparr>"
    using ISR_funpow_wait [OF en, of 256] by simp
  then have "(ISR ^^ 256) slow_state = slow_state" by (simp add: c0)
  then show ?thesis using en ne c0 p by simp
qed

lemma ISR_consume_every_mono:
  "consume_every s \<noteq> 255 \<Longrightarrow> unat (consume_every s) \<le> unat (consume_every (ISR s))"
  by (simp add: ISR_def Let_def USART_TransmitString_def dequeue_def u8_suc word_unat_eq_iff)

text \<open>
  Claim C3 at \<open>consume_every = 255\<close>. The consumer is enabled, the incremented \<open>cycle\<close>
  (255) has reached the period (255 + 0) and the buffer is empty, so the tick is an
  underrun; \<^verbatim>\<open>consume_every++\<close> is an 8-bit increment and leaves \<open>consume_every\<close> at 0,
  not at 256: the value has not increased by 1. (Lemma \<open>ISR_underrun\<close> gives the effect of
  an underrun tick in general: \<open>consume_every\<close> becomes \<open>consume_every + 1\<close> modulo 256,
  \<open>enable_consumer\<close> becomes 0 and \<open>head\<close> is unchanged.)
\<close>

theorem underrun_wraps_consume_every:
  "enable_consumer underrun_state \<noteq> 0 \<and>
   period underrun_state \<le> unat (cycle underrun_state + 1) \<and>
   empty underrun_state = 1 \<and>
   unat (consume_every underrun_state) = 255 \<and>
   unat (consume_every (ISR underrun_state)) = 0"
  by code_simp

text \<open>
  Claim C5 at \<open>consume_every = 255\<close>. Nothing changes \<open>consume_every_modifier\<close>, and the
  underrun tick takes \<open>consume_every\<close> from 255 down to 0. Below 255 the value never
  decreases (lemma \<open>ISR_consume_every_mono\<close>).
\<close>

theorem consume_every_decreases:
  "consume_every_modifier (ISR saturated_state) = consume_every_modifier saturated_state \<and>
   unat (consume_every (ISR saturated_state)) < unat (consume_every saturated_state)"
  by code_simp

section \<open>Properties of the producer\<close>

lemma main_loop_g_eq:
  "b rgb = 0 \<Longrightarrow> main_loop_g rgb out =
     (rgb\<lparr>g := 0\<rparr>,
      out @ concat (map (\<lambda>j. map (\<lambda>k. rgb\<lparr>g := of_nat j, b := of_nat k\<rparr>) [0..<256])
                     [unat (g rgb)..<256]))"
proof (induction rgb out rule: main_loop_g.induct)
  case (1 rgb out)
  let ?row = "\<lambda>j. map (\<lambda>k. rgb\<lparr>g := of_nat j, b := of_nat k\<rparr>) [0..<256]"
  have b0: "rgb\<lparr>b := 0\<rparr> = rgb" using "1.prems" by (cases rgb) simp
  have self: "rgb\<lparr>g := of_nat (unat (g rgb))\<rparr> = rgb" by simp
  have lb: "main_loop_b rgb out = (rgb, out @ ?row (unat (g rgb)))"
    using "1.prems" by (simp add: main_loop_b_eq b0)
  have lt: "unat (g rgb) < 256" by (rule u8_lt)
  show ?case
  proof (cases "g rgb + 1 = 0")
    case True
    then have step: "main_loop_g rgb out = (rgb\<lparr>g := 0\<rparr>, out @ ?row (unat (g rgb)))"
      by (subst main_loop_g.simps) (simp add: lb Let_def)
    from True have "unat (g rgb + 1) = 0" by simp
    then have last: "unat (g rgb) = 255"
      by (simp add: u8_suc split: if_splits)
    have "[unat (g rgb)..<256] = [unat (g rgb)]"
      unfolding last by (simp add: upt_rec)
    then show ?thesis unfolding step by simp
  next
    case False
    have step: "main_loop_g rgb out =
        main_loop_g (rgb\<lparr>g := g rgb + 1\<rparr>) (out @ ?row (unat (g rgb)))"
      using False by (subst main_loop_g.simps) (simp add: lb Let_def)
    have suc: "unat (g rgb + 1) = Suc (unat (g rgb))"
      using False unatSuc [of "g rgb"] by (simp add: add.commute)
    have ih: "main_loop_g (rgb\<lparr>g := g rgb + 1\<rparr>) (out @ ?row (unat (g rgb))) =
        (rgb\<lparr>g := 0\<rparr>,
         (out @ ?row (unat (g rgb))) @ concat (map ?row [Suc (unat (g rgb))..<256]))"
      using "1.IH" [OF lb [symmetric] refl refl] False "1.prems" by (simp add: suc)
    have "[unat (g rgb)..<256] = unat (g rgb) # [Suc (unat (g rgb))..<256]"
      using lt by (simp add: upt_conv_Cons)
    then show ?thesis unfolding step ih by simp
  qed
qed

lemma main_loop_r_eq:
  "g rgb = 0 \<Longrightarrow> b rgb = 0 \<Longrightarrow> main_loop_r rgb out =
     (rgb\<lparr>r := 0\<rparr>,
      out @ concat (map (\<lambda>i. concat (map (\<lambda>j. map (\<lambda>k.
                rgb\<lparr>r := of_nat i, g := of_nat j, b := of_nat k\<rparr>) [0..<256]) [0..<256]))
                     [unat (r rgb)..<256]))"
proof (induction rgb out rule: main_loop_r.induct)
  case (1 rgb out)
  let ?plane = "\<lambda>i. concat (map (\<lambda>j. map (\<lambda>k.
      rgb\<lparr>r := of_nat i, g := of_nat j, b := of_nat k\<rparr>) [0..<256]) [0..<256])"
  have g0: "rgb\<lparr>g := 0\<rparr> = rgb" using "1.prems" by (cases rgb) simp
  have lg: "main_loop_g rgb out = (rgb, out @ ?plane (unat (r rgb)))"
    using "1.prems" by (simp add: main_loop_g_eq g0)
  have lt: "unat (r rgb) < 256" by (rule u8_lt)
  show ?case
  proof (cases "r rgb + 1 = 0")
    case True
    then have step: "main_loop_r rgb out = (rgb\<lparr>r := 0\<rparr>, out @ ?plane (unat (r rgb)))"
      by (subst main_loop_r.simps) (simp add: lg Let_def)
    from True have "unat (r rgb + 1) = 0" by simp
    then have last: "unat (r rgb) = 255"
      by (simp add: u8_suc split: if_splits)
    have "[unat (r rgb)..<256] = [unat (r rgb)]"
      unfolding last by (simp add: upt_rec)
    then show ?thesis unfolding step by simp
  next
    case False
    have step: "main_loop_r rgb out =
        main_loop_r (rgb\<lparr>r := r rgb + 1\<rparr>) (out @ ?plane (unat (r rgb)))"
      using False by (subst main_loop_r.simps) (simp add: lg Let_def)
    have suc: "unat (r rgb + 1) = Suc (unat (r rgb))"
      using False unatSuc [of "r rgb"] by (simp add: add.commute)
    have ih: "main_loop_r (rgb\<lparr>r := r rgb + 1\<rparr>) (out @ ?plane (unat (r rgb))) =
        (rgb\<lparr>r := 0\<rparr>,
         (out @ ?plane (unat (r rgb))) @ concat (map ?plane [Suc (unat (r rgb))..<256]))"
      using "1.IH" [OF lg [symmetric] refl refl] False "1.prems" by (simp add: suc)
    have "[unat (r rgb)..<256] = unat (r rgb) # [Suc (unat (r rgb))..<256]"
      using lt by (simp add: upt_conv_Cons)
    then show ?thesis unfolding step ih by simp
  qed
qed


lemma concat_map_upt:
  "concat (map (\<lambda>i. map (\<lambda>k. F (i * m + k)) [0..<m]) [0..<n]) = map F [0..<n * m]"
proof (induction n)
  case 0
  then show ?case by simp
next
  case (Suc n)
  have "map F [0..<Suc n * m] = map F ([0..<n * m] @ [n * m..<n * m + m])"
    using upt_add_eq_append [of 0 "n * m" m] by (simp add: add.commute)
  also have "[n * m..<n * m + m] = map (\<lambda>k. k + n * m) [0..<m]"
    using map_add_upt [of "n * m" m] by (simp add: add.commute)
  finally have "map F [0..<Suc n * m] = map F [0..<n * m] @ map (\<lambda>k. F (n * m + k)) [0..<m]"
    by (simp add: comp_def add.commute)
  then show ?case using Suc.IH by simp
qed

lemma odometer_digits:
  assumes "j < 256" "k < 256"
  shows "odometer ((i * 256 + j) * 256 + k) = \<lparr>r = of_nat i, g = of_nat j, b = of_nat k\<rparr>"
proof -
  have d1: "((i * 256 + j) * 256 + k) div 256 = i * 256 + j"
    using assms(2) by simp
  have sq: "(65536::nat) = 256 * 256" by simp
  have d2: "((i * 256 + j) * 256 + k) div 65536 = i"
    unfolding sq div_mult2_eq d1 using assms(1) by simp
  have w256: "(256 :: u8) = 0" by simp
  have gj: "(of_nat (i * 256 + j) :: u8) = of_nat j" by (simp add: w256)
  have w65536: "(65536 :: u8) = 0" by simp
  have bk: "(of_nat ((i * 256 + j) * 256 + k) :: u8) = of_nat k" by (simp add: w256 w65536)
  show ?thesis
    unfolding odometer_def d1 d2 gj bk ..
qed

lemma odometer_inverse: "odometer (odometer_index x) = x"
proof -
  have "odometer (odometer_index x) =
      \<lparr>r = of_nat (unat (r x)), g = of_nat (unat (g x)), b = of_nat (unat (b x))\<rparr>"
    unfolding odometer_index_def by (rule odometer_digits [OF u8_lt u8_lt])
  then show ?thesis by simp
qed

lemma odometer_index_lt: "odometer_index x < 16777216"
  using u8_lt [of "r x"] u8_lt [of "g x"] u8_lt [of "b x"]
  by (simp add: odometer_index_def)

lemma odometer_index_inverse:
  assumes "n < 16777216"
  shows "odometer_index (odometer n) = n"
proof -
  have hi: "n div 65536 < 256" using assms by simp
  have e: "n div 65536 = n div 256 div 256" by (simp add: div_mult2_eq)
  have "odometer_index (odometer n) = (n div 65536 * 256 + n div 256 mod 256) * 256 + n mod 256"
    using hi by (simp add: odometer_index_def odometer_def unat_of_nat)
  also have "\<dots> = n div 256 * 256 + n mod 256"
    unfolding e by simp
  also have "\<dots> = n" by simp
  finally show ?thesis .
qed

lemma cube_flat:
  "concat (map (\<lambda>i. concat (map (\<lambda>j. map (\<lambda>k.
       \<lparr>r = of_nat i, g = of_nat j, b = of_nat k\<rparr>) [0..<256]) [0..<256])) [0..<256])
   = map odometer [0..<16777216]"
proof -
  have row: "map (\<lambda>k. \<lparr>r = of_nat i, g = of_nat j, b = of_nat k\<rparr>) [0..<256] =
      map (\<lambda>k. odometer (i * 65536 + (j * 256 + k))) [0..<256]" if "j < 256" for i j
  proof (rule map_cong [OF refl])
    fix k assume "k \<in> set [0..<256]"
    then have "k < 256" by simp
    then show "\<lparr>r = of_nat i, g = of_nat j, b = of_nat k\<rparr> = odometer (i * 65536 + (j * 256 + k))"
      using odometer_digits [OF that, of k i] by (simp add: algebra_simps)
  qed
  have plane: "concat (map (\<lambda>j. map (\<lambda>k. \<lparr>r = of_nat i, g = of_nat j, b = of_nat k\<rparr>) [0..<256])
        [0..<256]) = map (\<lambda>m. odometer (i * 65536 + m)) [0..<65536]" for i
  proof -
    have eq: "map (\<lambda>j. map (\<lambda>k. \<lparr>r = of_nat i, g = of_nat j, b = of_nat k\<rparr>) [0..<256]) [0..<256]
        = map (\<lambda>j. map (\<lambda>k. odometer (i * 65536 + (j * 256 + k))) [0..<256]) [0..<256]"
      by (rule map_cong [OF refl]) (simp add: row)
    have flat: "concat (map (\<lambda>j. map (\<lambda>k. odometer (i * 65536 + (j * 256 + k))) [0..<256])
        [0..<256]) = map (\<lambda>m. odometer (i * 65536 + m)) [0..<65536]"
      using concat_map_upt [of "\<lambda>m. odometer (i * 65536 + m)" 256 256] by simp
    show ?thesis unfolding eq flat ..
  qed
  show ?thesis
    unfolding plane
    using concat_map_upt [of odometer 65536 256] by simp
qed

lemma main_pass_eq:
  "main_pass = (\<lparr>r = 0, g = 0, b = 0\<rparr>, map odometer [0..<16777216])"
  unfolding main_pass_def
  by (simp add: main_loop_r_eq cube_flat)

lemma Suc_div_256: "Suc n div 256 = (if n mod 256 = 255 then Suc (n div 256) else n div 256)"
  by (simp add: div_Suc mod_Suc)

lemma Suc_div_65536:
  "Suc n div 65536 = (if n mod 65536 = 65535 then Suc (n div 65536) else n div 65536)"
  by (simp add: div_Suc mod_Suc)

lemma u8_of_nat_255: "(of_nat n :: u8) = 255 \<longleftrightarrow> n mod 256 = 255"
  by (simp add: word_unat_eq_iff unat_of_nat)

lemma u8_carry: "n mod 256 = 255 \<Longrightarrow> (1 + of_nat n :: u8) = 0"
proof -
  assume "n mod 256 = 255"
  then have "(of_nat n :: u8) = 255" by (simp add: u8_of_nat_255)
  then show ?thesis by simp
qed

lemma mod_65536:
  "(n::nat) mod 65536 = 65535 \<longleftrightarrow> n div 256 mod 256 = 255 \<and> n mod 256 = 255"
proof -
  have "n mod (256 * 256) = 256 * (n div 256 mod 256) + n mod 256"
    by (rule mod_mult2_eq)
  moreover have "n div 256 mod 256 < 256" "n mod 256 < 256" by simp_all
  ultimately show ?thesis by auto
qed

lemma odometer_Suc: "odometer (Suc n) = odometer_carry (odometer n)"
proof -
  have bb: "(of_nat (Suc n) :: u8) = of_nat n + 1" by simp
  show ?thesis
    unfolding odometer_def odometer_carry_def
    by (simp add: Suc_div_256 Suc_div_65536 u8_of_nat_255 mod_65536 u8_carry)
qed

text \<open>
  Claim C8. One pass of the producer starts from (0, 0, 0) and passes to \<open>enqueue\<close> the
  \<open>2 ^ 24\<close> readings of the odometer in order (\<open>b\<close> varies fastest, a field that wraps
  to 0 carries into the next one); the pass ends with \<open>r\<close> wrapped back to 0, that is with
  \<open>rgb\<close> at (0, 0, 0) again; every value of the record type has been passed exactly once.
\<close>

theorem producer_odometer:
  "main_pass = (\<lparr>r = 0, g = 0, b = 0\<rparr>, map odometer [0..<2 ^ 24]) \<and>
   odometer 0 = \<lparr>r = 0, g = 0, b = 0\<rparr> \<and>
   length (snd main_pass) = 2 ^ 24 \<and>
   (\<forall>n. odometer (Suc n) = odometer_carry (odometer n)) \<and>
   distinct (snd main_pass) \<and>
   set (snd main_pass) = UNIV"
proof -
  have inj: "inj_on odometer (set [0..<16777216])"
    by (rule inj_on_inverseI [where g = odometer_index]) (simp add: odometer_index_inverse)
  have "x \<in> odometer ` set [0..<16777216]" for x
    using odometer_inverse [of x, symmetric] odometer_index_lt [of x]
    by (intro image_eqI [where x = "odometer_index x"]) simp_all
  then have all: "odometer ` set [0..<16777216] = UNIV" by blast
  have p: "(2::nat) ^ 24 = 16777216" by simp
  show ?thesis
    unfolding p main_pass_eq
    using inj all by (simp add: distinct_map odometer_Suc) (simp add: odometer_def)
qed

end
